theory Spec2Isabelle
  imports Main "HOL-Library.Multiset"
begin

section \<open>The metadata cache of onedriver (package graph, type Cache)\<close>

text \<open>
  The cache maps server ids to pointers to DriveItem objects (\<open>metadata sync.Map\<close>);
  a parent holds the ids of its children, never pointers. Items are shared, mutable Go
  objects, so the embedding has an explicit store: an address is a natural number, the
  store \<open>heap\<close> gives the object at each address, and a Go pointer is an
  \<open>addr option\<close> whose \<open>None\<close> is \<open>nil\<close>. A fault that ends the Go program is
  a value of type \<open>fault\<close>: \<open>NilDeref\<close> is the panic of a method call through a nil
  pointer, \<open>Deadlock\<close> is a second exclusive \<open>Lock\<close> of a mutex the same goroutine
  already holds (the mutexes are go-deadlock's \<open>RWMutex\<close>, which is not reentrant).
\<close>

type_synonym addr = nat

datatype fault = NilDeref | Deadlock

subsection \<open>Items\<close>

text \<open>
  Modelled from the spec: the declaration of \<open>DriveItem\<close> is missing from the source
  files. The spec's Item has an id, a name, a parent id that is empty only for the root,
  a directory flag, a child id list whose unpopulated state differs from the empty
  list (Go's nil slice, here \<open>None\<close>), a count of directory children and a deletion
  marker. The fields \<open>IDInternal\<close>, \<open>children\<close>, \<open>subdir\<close>, \<open>Deleted\<close> and
  \<open>Parent.ID\<close> are the ones the cache's code reads and writes. The counter's integer
  width is not visible, so \<open>subdir\<close> is an \<open>int\<close> and \<open>++\<close>, \<open>--\<close> add and
  subtract one.
\<close>

record DriveItem =
  IDInternal :: string
  NameInternal :: string
  Parent_ID :: string
  is_dir :: bool
  Deleted :: bool
  children :: "string list option"
  subdir :: int

text \<open>
  Modelled from the spec: the accessors \<open>ID\<close>, \<open>Name\<close>, \<open>ParentID\<close>, \<open>IsDir\<close>
  and \<open>SetName\<close> of \<open>DriveItem\<close> are missing from the source files. Each reads or
  writes the one field it is named after; setting the name changes the item only, as
  the spec has it. The locks they may take are not modelled; the lock calls written in
  the cache's own code are.
\<close>

definition ID :: "DriveItem \<Rightarrow> string" where
  "ID d = IDInternal d"

definition Name :: "DriveItem \<Rightarrow> string" where
  "Name d = NameInternal d"

definition ParentID :: "DriveItem \<Rightarrow> string" where
  "ParentID d = Parent_ID d"

definition IsDir :: "DriveItem \<Rightarrow> bool" where
  "IsDir d = is_dir d"

definition SetName :: "string \<Rightarrow> DriveItem \<Rightarrow> DriveItem" where
  "SetName n d = d\<lparr>NameInternal := n\<rparr>"

text \<open>The ids a \<open>range\<close> loop over \<open>item.children\<close> visits: none for a nil slice.\<close>

definition child_ids :: "DriveItem \<Rightarrow> string list" where
  "child_ids d = (case children d of None \<Rightarrow> [] | Some cs \<Rightarrow> cs)"

subsection \<open>The cache\<close>

record Auth =
  AccessToken :: string

text \<open>
  \<open>metadata\<close>, \<open>root\<close>, \<open>auth\<close> and \<open>deltaLink\<close> are the fields of the Go struct.
  \<open>heap\<close> is the store of DriveItem objects and \<open>nextAddr\<close> the first address that
  no object occupies yet; \<open>remote_gets\<close> counts the requests sent to the remote service.
\<close>

record Cache =
  metadata :: "string \<rightharpoonup> addr"
  root :: string
  auth :: "Auth option"
  deltaLink :: string
  heap :: "addr \<Rightarrow> DriveItem"
  nextAddr :: addr
  remote_gets :: nat

definition GetID :: "Cache \<Rightarrow> string \<Rightarrow> addr option" where
  "GetID c i = metadata c i"

definition upd_item :: "addr \<Rightarrow> (DriveItem \<Rightarrow> DriveItem) \<Rightarrow> Cache \<Rightarrow> Cache" where
  "upd_item a f c = c\<lparr>heap := (heap c)(a := f (heap c a))\<rparr>"

definition Store :: "string \<Rightarrow> addr \<Rightarrow> Cache \<Rightarrow> Cache" where
  "Store i a c = c\<lparr>metadata := (metadata c)(i \<mapsto> a)\<rparr>"

definition Unregister :: "string \<Rightarrow> Cache \<Rightarrow> Cache" where
  "Unregister i c = c\<lparr>metadata := (metadata c)(i := None)\<rparr>"

subsection \<open>InsertID\<close>

text \<open>
  The entry is stored first, so the parent is looked up in the updated registry. The
  scan compares the children with the argument \<open>id\<close>; what is appended is the item's
  own \<open>IDInternal\<close>. The item's mutex is locked while the parent's is held: when both
  are one object the call never returns.
\<close>

definition InsertID :: "string \<Rightarrow> addr \<Rightarrow> Cache \<Rightarrow> fault + Cache" where
  "InsertID i item c0 =
     (let c = Store i item c0;
          parentID = ParentID (heap c item)
      in if parentID = [] then Inr c
         else case GetID c parentID of
           None \<Rightarrow> Inr c
         | Some parent \<Rightarrow>
             if i \<in> set (child_ids (heap c parent)) then Inr c
             else if parent = item then Inl Deadlock
             else
               let c1 = (if IsDir (heap c item)
                         then upd_item parent (\<lambda>p. p\<lparr>subdir := subdir p + 1\<rparr>) c else c);
                   c2 = upd_item parent
                          (\<lambda>p. p\<lparr>children := Some (child_ids p @ [IDInternal (heap c1 item)])\<rparr>) c1;
                   c3 = upd_item item (\<lambda>d. d\<lparr>Parent_ID := IDInternal (heap c2 parent)\<rparr>) c2
               in Inr c3)"

subsection \<open>DeleteID\<close>

text \<open>The index of the first element equal to \<open>x\<close>, as the \<open>range\<close> loop finds it.\<close>

fun first_index :: "string \<Rightarrow> string list \<Rightarrow> nat option" where
  "first_index x [] = None"
| "first_index x (y # ys) =
     (if y = x then Some 0 else map_option Suc (first_index x ys))"

text \<open>
  The loop of DeleteID under the parent's lock: at the first child equal to \<open>id\<close> the
  slice becomes \<open>children[:i] ++ children[i+1:]\<close>, the counter drops when the item is
  a directory, and the loop ends.
\<close>

definition unlink_child :: "string \<Rightarrow> addr \<Rightarrow> addr \<Rightarrow> Cache \<Rightarrow> Cache" where
  "unlink_child i item parent c =
     (case first_index i (child_ids (heap c parent)) of
        None \<Rightarrow> c
      | Some k \<Rightarrow>
          let c1 = upd_item parent
                     (\<lambda>p. p\<lparr>children := Some (take k (child_ids p) @ drop (Suc k) (child_ids p))\<rparr>) c
          in if IsDir (heap c1 item)
             then upd_item parent (\<lambda>p. p\<lparr>subdir := subdir p - 1\<rparr>) c1 else c1)"

definition DeleteID :: "string \<Rightarrow> Cache \<Rightarrow> fault + Cache" where
  "DeleteID i c =
     (case GetID c i of
        None \<Rightarrow> Inr (Unregister i c)
      | Some item \<Rightarrow>
          (case GetID c (ParentID (heap c item)) of
             None \<Rightarrow> Inl NilDeref
           | Some parent \<Rightarrow> Inr (Unregister i (unlink_child i item parent c))))"

subsection \<open>MoveID\<close>

datatype cache_error =
    NotInCache string
  | AuthRequired
  | RemoteFailure string
  | DoesNotExist
  | ParentOfKeyNil
  | CouldNotGetItem string

text \<open>The loop of MoveID under the parent's lock: \<open>children[i] = newID\<close> at the first match.\<close>

definition rename_child :: "string \<Rightarrow> string \<Rightarrow> addr \<Rightarrow> Cache \<Rightarrow> Cache" where
  "rename_child oldID newID parent c =
     (case first_index oldID (child_ids (heap c parent)) of
        None \<Rightarrow> c
      | Some k \<Rightarrow> upd_item parent (\<lambda>p. p\<lparr>children := Some ((child_ids p)[k := newID])\<rparr>) c)"

text \<open>
  The result is the cache with the returned error (\<open>None\<close> is Go's nil error), or the
  fault that ended the program.
\<close>

definition MoveID :: "string \<Rightarrow> string \<Rightarrow> Cache \<Rightarrow> fault + (Cache \<times> cache_error option)" where
  "MoveID oldID newID c =
     (case (case GetID c oldID of None \<Rightarrow> GetID c newID | Some a \<Rightarrow> Some a) of
        None \<Rightarrow> Inr (c, Some (CouldNotGetItem oldID))
      | Some item \<Rightarrow>
          (case GetID c (ParentID (heap c item)) of
             None \<Rightarrow> Inl NilDeref
           | Some parent \<Rightarrow>
               let c1 = rename_child oldID newID parent c;
                   c2 = upd_item item (\<lambda>d. d\<lparr>IDInternal := newID\<rparr>) c1
               in (case DeleteID oldID c2 of
                     Inl f \<Rightarrow> Inl f
                   | Inr c3 \<Rightarrow>
                       (case InsertID newID item c3 of
                          Inl f \<Rightarrow> Inl f
                        | Inr c4 \<Rightarrow> Inr (c4, None)))))"

subsection \<open>Strings and paths of the Go library\<close>

text \<open>
  \<open>strings.ToLower\<close> on ASCII: the letters A to Z are mapped to a to z and every other
  byte is kept (Go also maps the upper-case letters beyond ASCII).
\<close>

definition lower_char :: "char \<Rightarrow> char" where
  "lower_char ch =
     (case map_of (zip ''ABCDEFGHIJKLMNOPQRSTUVWXYZ'' ''abcdefghijklmnopqrstuvwxyz'') ch of
        None \<Rightarrow> ch
      | Some l \<Rightarrow> l)"

definition ToLower :: "string \<Rightarrow> string" where
  "ToLower s = map lower_char s"

definition HasPrefix :: "string \<Rightarrow> string \<Rightarrow> bool" where
  "HasPrefix s pre = (take (length pre) s = pre)"

definition TrimPrefix :: "string \<Rightarrow> string \<Rightarrow> string" where
  "TrimPrefix s pre = (if HasPrefix s pre then drop (length pre) s else s)"

definition HasSuffix :: "string \<Rightarrow> string \<Rightarrow> bool" where
  "HasSuffix s suf = (length suf \<le> length s \<and> drop (length s - length suf) s = suf)"

definition TrimSuffix :: "string \<Rightarrow> string \<Rightarrow> string" where
  "TrimSuffix s suf = (if HasSuffix s suf then take (length s - length suf) s else s)"

text \<open>\<open>strings.Split(s, sep)\<close> for a separator of one byte: never the empty list.\<close>

fun Split :: "string \<Rightarrow> char \<Rightarrow> string list" where
  "Split [] sep = [[]]"
| "Split (x # xs) sep =
     (if x = sep then [] # Split xs sep
      else (case Split xs sep of
              [] \<Rightarrow> [[x]]
            | w # ws \<Rightarrow> (x # w) # ws))"

fun Join :: "string list \<Rightarrow> string \<Rightarrow> string" where
  "Join [] sep = []"
| "Join [w] sep = w"
| "Join (w # v # ws) sep = w @ sep @ Join (v # ws) sep"

text \<open>
  \<open>filepath.Clean\<close> on a path with separator \<open>/\<close> and no volume name: empty and
  \<open>.\<close> elements vanish, \<open>..\<close> removes the element before it, or is dropped at the
  root, or is kept at the start of a relative path; the empty result is \<open>.\<close>. The
  third argument of \<open>clean_segs\<close> is the output so far, last element first.
\<close>

fun clean_segs :: "bool \<Rightarrow> string list \<Rightarrow> string list \<Rightarrow> string list" where
  "clean_segs rooted [] out = rev out"
| "clean_segs rooted (s # ss) out =
     (if s = [] \<or> s = ''.'' then clean_segs rooted ss out
      else if s = ''..'' then
        (case out of
           [] \<Rightarrow> if rooted then clean_segs rooted ss [] else clean_segs rooted ss [''..'']
         | t # ts \<Rightarrow>
             if t = ''..'' then clean_segs rooted ss (''..'' # out)
             else clean_segs rooted ss ts)
      else clean_segs rooted ss (s # out))"

definition Clean :: "string \<Rightarrow> string" where
  "Clean p =
     (let rooted = (case p of [] \<Rightarrow> False | ch # _ \<Rightarrow> ch = CHR ''/'');
          out = (if rooted then ''/'' else []) @
                Join (clean_segs rooted (Split p (CHR ''/'')) []) ''/''
      in if out = [] then ''.'' else out)"

text \<open>\<open>filepath.Dir\<close>: everything up to the last separator, cleaned.\<close>

definition Dir :: "string \<Rightarrow> string" where
  "Dir p = Clean (rev (dropWhile (\<lambda>ch. ch \<noteq> CHR ''/'') (rev p)))"

text \<open>\<open>filepath.Base\<close>: the last element, after the trailing separators are dropped.\<close>

definition Base :: "string \<Rightarrow> string" where
  "Base p =
     (if p = [] then ''.''
      else let q = rev (dropWhile (\<lambda>ch. ch = CHR ''/'') (rev p));
               b = rev (takeWhile (\<lambda>ch. ch \<noteq> CHR ''/'') (rev q))
           in if b = [] then ''/'' else b)"

subsection \<open>GetChildrenID\<close>

text \<open>
  The remote service is a parameter: at the \<open>n\<close>-th request, asked for the children of
  an id, it answers with an error message or with the child records of the response,
  decoded. The result of \<open>GetChildrenID\<close> is the cache, the returned map (keys are
  lower-cased names; \<open>None\<close> is Go's nil map) and the returned error.
\<close>

type_synonym remote = "nat \<Rightarrow> string \<Rightarrow> string + DriveItem list"

type_synonym child_map = "string \<rightharpoonup> addr"

text \<open>The loop over a populated \<open>item.children\<close>: ids that resolve to nothing are skipped.\<close>

fun cached_children :: "Cache \<Rightarrow> string list \<Rightarrow> child_map \<Rightarrow> child_map" where
  "cached_children c [] m = m"
| "cached_children c (i # rest) m =
     (case GetID c i of
        None \<Rightarrow> cached_children c rest m
      | Some child \<Rightarrow> cached_children c rest (m(ToLower (Name (heap c child)) \<mapsto> child)))"

text \<open>
  A record decoded from JSON is a new object: it takes the next address, and its
  unexported fields \<open>children\<close> and \<open>subdir\<close> have their zero values.
\<close>

definition decoded :: "DriveItem \<Rightarrow> DriveItem" where
  "decoded d = d\<lparr>children := None, subdir := 0\<rparr>"

definition alloc :: "DriveItem \<Rightarrow> Cache \<Rightarrow> Cache" where
  "alloc d c = c\<lparr>heap := (heap c)(nextAddr c := d), nextAddr := Suc (nextAddr c)\<rparr>"

text \<open>The loop over the fetched children, under the item's lock.\<close>

fun store_fetched :: "addr \<Rightarrow> DriveItem list \<Rightarrow> child_map \<Rightarrow> Cache \<Rightarrow> Cache \<times> child_map" where
  "store_fetched item [] m c = (c, m)"
| "store_fetched item (r # rest) m c =
     (let child = nextAddr c;
          c1 = alloc (decoded r) c;
          c2 = Store (IDInternal (heap c1 child)) child c1;
          m' = m(ToLower (Name (heap c2 child)) \<mapsto> child);
          c3 = upd_item item
                 (\<lambda>p. p\<lparr>children := Some (child_ids p @ [IDInternal (heap c2 child)])\<rparr>) c2;
          c4 = (if IsDir (heap c3 child)
                then upd_item item (\<lambda>p. p\<lparr>subdir := subdir p + 1\<rparr>) c3 else c3)
      in store_fetched item rest m' c4)"

definition GetChildrenID ::
    "remote \<Rightarrow> string \<Rightarrow> Auth option \<Rightarrow> Cache \<Rightarrow> Cache \<times> child_map option \<times> cache_error option" where
  "GetChildrenID rem i au c =
     (case GetID c i of
        None \<Rightarrow> (c, Some Map.empty, Some (NotInCache i))
      | Some item \<Rightarrow>
          if \<not> IsDir (heap c item) then (c, Some Map.empty, None)
          else (case children (heap c item) of
                  Some cs \<Rightarrow> (c, Some (cached_children c cs Map.empty), None)
                | None \<Rightarrow>
                    (case au of
                       None \<Rightarrow> (c, None, Some AuthRequired)
                     | Some a \<Rightarrow>
                         if AccessToken a = [] then (c, None, Some AuthRequired)
                         else
                           let c0 = c\<lparr>remote_gets := Suc (remote_gets c)\<rparr>
                           in (case rem (remote_gets c) i of
                                 Inl e \<Rightarrow> (c0, None, Some (RemoteFailure e))
                               | Inr fetched \<Rightarrow>
                                   let c1 = upd_item item (\<lambda>p. p\<lparr>children := Some []\<rparr>) c0;
                                       (c2, m) = store_fetched item fetched Map.empty c1
                                   in (c2, Some m, None)))))"

subsection \<open>Get, Delete, Insert and Move by path\<close>

text \<open>
  The loop of \<open>Get\<close> over the path's elements; \<open>lastID\<close> and \<open>item\<close> are the loop's
  variables. A lookup in a nil map finds nothing.
\<close>

fun Get_walk ::
    "remote \<Rightarrow> Auth option \<Rightarrow> string list \<Rightarrow> string \<Rightarrow> addr option \<Rightarrow> Cache
      \<Rightarrow> Cache \<times> addr option \<times> cache_error option" where
  "Get_walk rem au [] lastID item c = (c, item, None)"
| "Get_walk rem au (s # ss) lastID item c =
     (case GetChildrenID rem lastID au c of
        (c', m, Some e) \<Rightarrow> (c', None, Some e)
      | (c', m, None) \<Rightarrow>
          (case (case m of None \<Rightarrow> None | Some cm \<Rightarrow> cm s) of
             None \<Rightarrow> (c', None, Some DoesNotExist)
           | Some child \<Rightarrow> Get_walk rem au ss (ID (heap c' child)) (Some child) c'))"

definition Get ::
    "remote \<Rightarrow> string \<Rightarrow> Auth option \<Rightarrow> Cache \<Rightarrow> Cache \<times> addr option \<times> cache_error option" where
  "Get rem path au c =
     (if path = ''/'' then (c, GetID c (root c), None)
      else Get_walk rem au (tl (Split (TrimSuffix (ToLower path) ''/'') (CHR ''/'')))
             (root c) None c)"

definition Delete :: "remote \<Rightarrow> string \<Rightarrow> Cache \<Rightarrow> fault + Cache" where
  "Delete rem key c =
     (case Get rem (ToLower key) None c of
        (c', None, _) \<Rightarrow> Inr c'
      | (c', Some item, _) \<Rightarrow> DeleteID (ID (heap c' item)) c')"

text \<open>
  \<open>Insert\<close> and \<open>Move\<close> receive the item as a pointer, which \<open>Move\<close> takes from
  \<open>Get\<close> and which can be nil there; a method call or a field access through it then
  faults.
\<close>

definition Insert ::
    "remote \<Rightarrow> string \<Rightarrow> Auth option \<Rightarrow> addr option \<Rightarrow> Cache
      \<Rightarrow> fault + (Cache \<times> cache_error option)" where
  "Insert rem key0 au item c =
     (let key = ToLower key0
      in case Get rem (Dir key) au c of
           (c1, _, Some e) \<Rightarrow> Inr (c1, Some e)
         | (c1, None, None) \<Rightarrow>
             (case item of
                None \<Rightarrow> Inl NilDeref
              | Some _ \<Rightarrow> Inr (c1, Some ParentOfKeyNil))
         | (c1, Some parent, None) \<Rightarrow>
             (case item of
                None \<Rightarrow> Inl NilDeref
              | Some it \<Rightarrow>
                  let parentID = ID (heap c1 parent);
                      c2 = upd_item it (\<lambda>d. d\<lparr>Parent_ID := parentID\<rparr>) c1
                  in (case InsertID (ID (heap c2 it)) it c2 of
                        Inl f \<Rightarrow> Inl f
                      | Inr c3 \<Rightarrow> Inr (c3, None))))"

definition set_name :: "addr option \<Rightarrow> string \<Rightarrow> Cache \<Rightarrow> fault + Cache" where
  "set_name item n c =
     (case item of
        None \<Rightarrow> Inl NilDeref
      | Some it \<Rightarrow> Inr (upd_item it (SetName n) c))"

definition Move ::
    "remote \<Rightarrow> string \<Rightarrow> string \<Rightarrow> Auth option \<Rightarrow> Cache \<Rightarrow> fault + (Cache \<times> cache_error option)" where
  "Move rem oldPath newPath au c =
     (case Get rem oldPath au c of
        (c1, _, Some e) \<Rightarrow> Inr (c1, Some e)
      | (c1, item, None) \<Rightarrow>
          (case Delete rem oldPath c1 of
             Inl f \<Rightarrow> Inl f
           | Inr c2 \<Rightarrow>
               (case (if Base oldPath \<noteq> Base newPath
                      then set_name item (Base newPath) c2 else Inr c2) of
                  Inl f \<Rightarrow> Inl f
                | Inr c3 \<Rightarrow>
                    (case Insert rem newPath au item c3 of
                       Inl f \<Rightarrow> Inl f
                     | Inr (c4, None) \<Rightarrow> Inr (c4, None)
                     | Inr (c4, Some e) \<Rightarrow>
                         (case set_name item (Base oldPath) c4 of
                            Inl f \<Rightarrow> Inl f
                          | Inr c5 \<Rightarrow>
                              (case Insert rem oldPath au item c5 of
                                 Inl f \<Rightarrow> Inl f
                               | Inr (c6, _) \<Rightarrow> Inr (c6, Some e)))))))"

subsection \<open>The delta synchronizer\<close>

text \<open>
  \<open>applyDelta\<close> receives the record by value and always returns a nil error, so the
  result is the cache or a fault of \<open>DeleteID\<close>.
\<close>

definition applyDelta :: "DriveItem \<Rightarrow> Cache \<Rightarrow> fault + Cache" where
  "applyDelta item c =
     (case GetID c (ParentID item) of
        None \<Rightarrow> Inr c
      | Some parent \<Rightarrow>
          if Deleted item then DeleteID (ID item) c else Inr c)"

record deltaResponse =
  NextLink :: string
  DeltaLink :: string
  Values :: "DriveItem list"

text \<open>The loop of \<open>pollDeltas\<close> over \<open>page.Values\<close>.\<close>

fun apply_page :: "DriveItem list \<Rightarrow> Cache \<Rightarrow> fault + Cache" where
  "apply_page [] c = Inr c"
| "apply_page (item # rest) c =
     (case applyDelta item c of
        Inl f \<Rightarrow> Inl f
      | Inr c' \<Rightarrow> apply_page rest c')"

text \<open>
  The constant \<open>graphURL\<close> is declared in another file of the package and is a
  parameter here, as is the remote service's answer to a request for a delta link: an
  error message or the decoded page. The result is the cache, whether to go on polling,
  and the error.
\<close>

definition pollDeltas ::
    "string \<Rightarrow> (string \<Rightarrow> string + deltaResponse) \<Rightarrow> Cache
      \<Rightarrow> fault + (Cache \<times> bool \<times> cache_error option)" where
  "pollDeltas graphURL delta_get c =
     (let c0 = c\<lparr>remote_gets := Suc (remote_gets c)\<rparr>
      in case delta_get (deltaLink c) of
           Inl e \<Rightarrow> Inr (c0, False, Some (RemoteFailure e))
         | Inr page \<Rightarrow>
             (case apply_page (Values page) c0 of
                Inl f \<Rightarrow> Inl f
              | Inr c1 \<Rightarrow>
                  if NextLink page \<noteq> []
                  then Inr (c1\<lparr>deltaLink := TrimPrefix (NextLink page) graphURL\<rparr>, True, None)
                  else Inr (c1\<lparr>deltaLink := TrimPrefix (DeltaLink page) graphURL\<rparr>, False, None)))"

subsection \<open>A small cache for the concrete checks\<close>

definition blank_item :: DriveItem where
  "blank_item = \<lparr>IDInternal = [], NameInternal = [], Parent_ID = [], is_dir = False,
     Deleted = False, children = None, subdir = 0\<rparr>"

text \<open>
  The root \<open>r\<close> holds the file \<open>c\<close> (named Foo) and the directory \<open>d\<close> (named Docs).
  The objects at 3 and 4 exist but are not registered: one names a parent that is not in
  the registry, the other is a new directory for the root.
\<close>

definition ex_heap :: "addr \<Rightarrow> DriveItem" where
  "ex_heap = (\<lambda>_. blank_item)
     (0 := blank_item\<lparr>IDInternal := ''r'', NameInternal := ''root'', is_dir := True,
             children := Some [''c'', ''d''], subdir := 1\<rparr>,
      1 := blank_item\<lparr>IDInternal := ''c'', NameInternal := ''Foo'', Parent_ID := ''r''\<rparr>,
      2 := blank_item\<lparr>IDInternal := ''d'', NameInternal := ''Docs'', Parent_ID := ''r'',
             is_dir := True\<rparr>,
      3 := blank_item\<lparr>IDInternal := ''o'', NameInternal := ''orphan'', Parent_ID := ''zz''\<rparr>,
      4 := blank_item\<lparr>IDInternal := ''n'', NameInternal := ''new'', Parent_ID := ''r'',
             is_dir := True\<rparr>)"

definition ex_cache :: Cache where
  "ex_cache = \<lparr>metadata = [''r'' \<mapsto> 0, ''c'' \<mapsto> 1, ''d'' \<mapsto> 2], root = ''r'', auth = None,
     deltaLink = ''/me/drive/root/delta?token=latest'', heap = ex_heap, nextAddr = 5,
     remote_gets = 0\<rparr>"

text \<open>
  The remote service of the concrete checks answers every request with one child record,
  the file \<open>x.txt\<close> of the directory \<open>d\<close>; \<open>ex_auth\<close> is a non-empty credential.
\<close>

definition ex_remote :: remote where
  "ex_remote = (\<lambda>n i. Inr [blank_item\<lparr>IDInternal := ''x'', NameInternal := ''x.txt'',
                                Parent_ID := ''d''\<rparr>])"

definition ex_auth :: "Auth option" where
  "ex_auth = Some \<lparr>AccessToken = ''token''\<rparr>"

text \<open>Two tombstones for the file \<open>c\<close>: one names the root as parent, one an unknown parent.\<close>

definition ex_tombstone :: DriveItem where
  "ex_tombstone = blank_item\<lparr>IDInternal := ''c'', NameInternal := ''Foo'', Parent_ID := ''r'',
     Deleted := True\<rparr>"

definition ex_tombstone_far :: DriveItem where
  "ex_tombstone_far = blank_item\<lparr>IDInternal := ''c'', NameInternal := ''Foo'',
     Parent_ID := ''zz'', Deleted := True\<rparr>"



subsection \<open>Sequences of operations\<close>

text \<open>
  The calls a client of the cache and the delta loop can make, one after the other.
  \<open>OpNew\<close> is the creation of an item object outside the cache (the kernel bridge
  makes one before it calls \<open>Insert\<close>); \<open>OpPoll\<close> carries the base URL and the
  remote's answer to the poll. A fault ends the run.
\<close>

datatype op =
    OpNew DriveItem
  | OpInsertID string addr
  | OpDeleteID string
  | OpMoveID string string
  | OpGetChildrenID string "Auth option"
  | OpGet string "Auth option"
  | OpDelete string
  | OpInsert string "Auth option" "addr option"
  | OpMove string string "Auth option"
  | OpApplyDelta DriveItem
  | OpPoll string "string + deltaResponse"

fun exec :: "remote \<Rightarrow> op \<Rightarrow> Cache \<Rightarrow> fault + Cache" where
  "exec rem (OpNew d) c = Inr (alloc d c)"
| "exec rem (OpInsertID i item) c = InsertID i item c"
| "exec rem (OpDeleteID i) c = DeleteID i c"
| "exec rem (OpMoveID a b) c = map_sum id fst (MoveID a b c)"
| "exec rem (OpGetChildrenID i au) c = Inr (fst (GetChildrenID rem i au c))"
| "exec rem (OpGet path au) c = Inr (fst (Get rem path au c))"
| "exec rem (OpDelete key) c = Delete rem key c"
| "exec rem (OpInsert key au item) c = map_sum id fst (Insert rem key au item c)"
| "exec rem (OpMove a b au) c = map_sum id fst (Move rem a b au c)"
| "exec rem (OpApplyDelta d) c = applyDelta d c"
| "exec rem (OpPoll url resp) c = map_sum id fst (pollDeltas url (\<lambda>_. resp) c)"

fun run :: "remote \<Rightarrow> op list \<Rightarrow> Cache \<Rightarrow> fault + Cache" where
  "run rem [] c = Inr c"
| "run rem (x # xs) c =
     (case exec rem x c of
        Inl f \<Rightarrow> Inl f
      | Inr c' \<Rightarrow> run rem xs c')"

text \<open>
  A directory object is populated when it exists and its child list is not the nil
  slice.
\<close>

definition populated :: "addr \<Rightarrow> Cache \<Rightarrow> bool" where
  "populated a c \<longleftrightarrow> a < nextAddr c \<and> children (heap c a) \<noteq> None"

subsection \<open>The intermediate state of Move\<close>







subsection \<open>Well-linked caches\<close>

text \<open>
  The number of ids among an item's children that resolve to directory items, and the
  caches in which every registered item exists, is registered under its own id field,
  has no id twice among its children, has only children that are registered and name it
  as their parent, and counts its directory children right.
\<close>

definition resolves_to_dir :: "Cache \<Rightarrow> string \<Rightarrow> bool" where
  "resolves_to_dir c i = (case GetID c i of None \<Rightarrow> False | Some a \<Rightarrow> IsDir (heap c a))"

definition dir_count :: "Cache \<Rightarrow> addr \<Rightarrow> nat" where
  "dir_count c p = length (filter (resolves_to_dir c) (child_ids (heap c p)))"

definition well_linked :: "Cache \<Rightarrow> bool" where
  "well_linked c \<longleftrightarrow>
     (\<forall>i a. GetID c i = Some a \<longrightarrow>
        a < nextAddr c
        \<and> ID (heap c a) = i
        \<and> distinct (child_ids (heap c a))
        \<and> (\<forall>x \<in> set (child_ids (heap c a)).
              \<exists>b. GetID c x = Some b \<and> ParentID (heap c b) = i)
        \<and> subdir (heap c a) = int (dir_count c a))"

text \<open>
  The calls under which a well-linked cache stays well linked: InsertID of a new,
  unpopulated object under its own, unregistered id; DeleteID; MoveID to another,
  unregistered id of an item with no cached children; GetChildrenID when the remote's
  answer to the request for the directory's children consists of records of distinct
  unregistered ids that name the directory as parent. \<open>OpNew\<close> creates the objects
  that InsertID can register; the calls by path and the delta calls are left out.
\<close>

fun permitted :: "remote \<Rightarrow> op \<Rightarrow> Cache \<Rightarrow> bool" where
  "permitted rem (OpNew d) c = True"
| "permitted rem (OpInsertID i item) c =
     (item < nextAddr c \<and> ID (heap c item) = i \<and> GetID c i = None
      \<and> children (heap c item) = None \<and> subdir (heap c item) = 0)"
| "permitted rem (OpDeleteID i) c = True"
| "permitted rem (OpMoveID a b) c =
     (a \<noteq> b \<and> GetID c b = None
      \<and> (case GetID c a of None \<Rightarrow> True | Some item \<Rightarrow> child_ids (heap c item) = []))"
| "permitted rem (OpGetChildrenID i au) c =
     (case rem (remote_gets c) i of
        Inl e \<Rightarrow> True
      | Inr rs \<Rightarrow>
          distinct (map IDInternal rs)
          \<and> (\<forall>r \<in> set rs. GetID c (IDInternal r) = None \<and> Parent_ID r = i))"
| "permitted rem x c = False"

fun permitted_run :: "remote \<Rightarrow> op list \<Rightarrow> Cache \<Rightarrow> bool" where
  "permitted_run rem [] c = True"
| "permitted_run rem (x # xs) c =
     (permitted rem x c
      \<and> (case exec rem x c of Inl f \<Rightarrow> True | Inr c' \<Rightarrow> permitted_run rem xs c'))"

text \<open>A cache with two objects for the id \<open>n\<close>: the directory at 4 and a file at 5.\<close>

definition ex_twins :: Cache where
  "ex_twins = ex_cache\<lparr>
     heap := ex_heap(5 := blank_item\<lparr>IDInternal := ''n'', NameInternal := ''new'',
                                     Parent_ID := ''r''\<rparr>),
     nextAddr := 6\<rparr>"

section \<open>Basic facts\<close>

lemma first_index_None: "first_index x xs = None \<longleftrightarrow> x \<notin> set xs"
  by (induction xs) auto

lemma first_index_Some:
  "first_index x xs = Some k \<Longrightarrow> k < length xs \<and> xs ! k = x \<and> x \<notin> set (take k xs)"
proof (induction xs arbitrary: k)
  case Nil
  then show ?case by simp
next
  case (Cons y ys)
  show ?case
  proof (cases "y = x")
    case True
    with Cons.prems show ?thesis by simp
  next
    case False
    with Cons.prems obtain j where j: "first_index x ys = Some j" "k = Suc j"
      by auto
    from Cons.IH [OF j(1)] False j(2) show ?thesis by simp
  qed
qed

lemma first_index_remove1:
  "first_index x xs = Some k \<Longrightarrow> take k xs @ drop (Suc k) xs = remove1 x xs"
proof (induction xs arbitrary: k)
  case Nil
  then show ?case by simp
next
  case (Cons y ys)
  show ?case
  proof (cases "y = x")
    case True
    with Cons.prems show ?thesis by simp
  next
    case False
    with Cons.prems obtain j where j: "first_index x ys = Some j" "k = Suc j"
      by auto
    from Cons.IH [OF j(1)] False j(2) show ?thesis by simp
  qed
qed


lemma first_index_mem: "first_index x xs = Some k \<Longrightarrow> x \<in> set xs"
  by (metis first_index_None option.distinct(1))

lemma heap_Store [simp]: "heap (Store i a c) = heap c"
  by (simp add: Store_def)

lemma metadata_Store [simp]: "metadata (Store i a c) = (metadata c)(i \<mapsto> a)"
  by (simp add: Store_def)

lemma heap_Unregister [simp]: "heap (Unregister i c) = heap c"
  by (simp add: Unregister_def)

lemma metadata_Unregister [simp]: "metadata (Unregister i c) = (metadata c)(i := None)"
  by (simp add: Unregister_def)

lemma heap_upd_item [simp]: "heap (upd_item a f c) = (heap c)(a := f (heap c a))"
  by (simp add: upd_item_def)

lemma metadata_upd_item [simp]: "metadata (upd_item a f c) = metadata c"
  by (simp add: upd_item_def)

text \<open>What the loop of DeleteID leaves in the store.\<close>

lemma heap_unlink_child:
  "heap (unlink_child i item parent c) =
     (if i \<in> set (child_ids (heap c parent))
      then (heap c)(parent := (heap c parent)\<lparr>
              children := Some (remove1 i (child_ids (heap c parent))),
              subdir := subdir (heap c parent) - (if is_dir (heap c item) then 1 else 0)\<rparr>)
      else heap c)"
proof (cases "first_index i (child_ids (heap c parent))")
  case None
  then have "i \<notin> set (child_ids (heap c parent))"
    by (simp add: first_index_None)
  with None show ?thesis
    by (simp add: unlink_child_def)
next
  case (Some k)
  then have "i \<in> set (child_ids (heap c parent))"
    by (rule first_index_mem)
  with Some first_index_remove1 [OF Some] show ?thesis
    by (auto simp: unlink_child_def Let_def IsDir_def fun_eq_iff)
qed

lemma metadata_unlink_child [simp]:
  "metadata (unlink_child i item parent c) = metadata c"
  by (simp add: unlink_child_def Let_def split: option.splits)

lemmas ex_defs = ex_cache_def ex_heap_def blank_item_def

lemmas acc_defs = GetID_def ParentID_def IsDir_def ID_def Name_def child_ids_def

section \<open>DeleteID and the missing parent\<close>

text \<open>
  C10. Whenever the registry holds an item under \<open>id\<close>, DeleteID calls
  \<open>parent.mutex.Lock()\<close> on the result of looking up the item's parent id, with no
  presence check: the call faults with a nil dereference exactly when the item is
  registered and its parent is not, and otherwise returns. In particular it faults on
  the root id (empty parent id, nothing registered under the empty id) and on an item
  that InsertID has just registered while its parent was absent.
\<close>

theorem DeleteID_nil_parent:
  "(DeleteID i c = Inl NilDeref \<longleftrightarrow>
      (\<exists>item. GetID c i = Some item \<and> GetID c (ParentID (heap c item)) = None))
   \<and> (DeleteID i c \<noteq> Inl NilDeref \<longrightarrow> (\<exists>c'. DeleteID i c = Inr c'))
   \<and> (GetID c (root c) = Some r \<and> ParentID (heap c r) = [] \<and> GetID c [] = None
        \<longrightarrow> DeleteID (root c) c = Inl NilDeref)
   \<and> (ParentID (heap c a) \<noteq> [] \<and> GetID (Store i a c) (ParentID (heap c a)) = None
        \<longrightarrow> (\<exists>c'. InsertID i a c = Inr c' \<and> GetID c' i = Some a
                 \<and> DeleteID i c' = Inl NilDeref))"
proof (intro conjI impI)
  show "DeleteID i c = Inl NilDeref \<longleftrightarrow>
      (\<exists>item. GetID c i = Some item \<and> GetID c (ParentID (heap c item)) = None)"
    by (auto simp: DeleteID_def split: option.splits)
next
  assume "DeleteID i c \<noteq> Inl NilDeref"
  then show "\<exists>c'. DeleteID i c = Inr c'"
    by (auto simp: DeleteID_def split: option.splits)
next
  assume "GetID c (root c) = Some r \<and> ParentID (heap c r) = [] \<and> GetID c [] = None"
  then show "DeleteID (root c) c = Inl NilDeref"
    by (simp add: DeleteID_def)
next
  assume h: "ParentID (heap c a) \<noteq> [] \<and> GetID (Store i a c) (ParentID (heap c a)) = None"
  have heap_Store: "heap (Store i a c) = heap c"
    by (simp add: Store_def)
  from h have ins: "InsertID i a c = Inr (Store i a c)"
    by (simp add: InsertID_def Let_def heap_Store)
  have reg: "GetID (Store i a c) i = Some a"
    by (simp add: GetID_def Store_def)
  from h reg have "DeleteID i (Store i a c) = Inl NilDeref"
    by (simp add: DeleteID_def heap_Store)
  with ins reg show "\<exists>c'. InsertID i a c = Inr c' \<and> GetID c' i = Some a
                 \<and> DeleteID i c' = Inl NilDeref"
    by simp
qed

theorem DeleteID_nil_parent_witness:
  "DeleteID ''o'' ex_cache \<noteq> Inl NilDeref
   \<and> (\<exists>c'. DeleteID ''o'' ex_cache = Inr c')
   \<and> GetID ex_cache (root ex_cache) = Some 0 \<and> ParentID (heap ex_cache 0) = []
   \<and> GetID ex_cache [] = None
   \<and> DeleteID (root ex_cache) ex_cache = Inl NilDeref
   \<and> ParentID (heap ex_cache 3) \<noteq> []
   \<and> GetID (Store ''o'' 3 ex_cache) (ParentID (heap ex_cache 3)) = None
   \<and> (\<exists>c'. InsertID ''o'' 3 ex_cache = Inr c' \<and> GetID c' ''o'' = Some 3
          \<and> DeleteID ''o'' c' = Inl NilDeref)"
proof -
  have a: "DeleteID ''o'' ex_cache \<noteq> Inl NilDeref"
    by (simp add: DeleteID_def GetID_def ex_cache_def)
  have b: "GetID ex_cache (root ex_cache) = Some 0 \<and> ParentID (heap ex_cache 0) = []
      \<and> GetID ex_cache [] = None"
    by (simp add: acc_defs ex_defs)
  have d: "ParentID (heap ex_cache 3) \<noteq> []
      \<and> GetID (Store ''o'' 3 ex_cache) (ParentID (heap ex_cache 3)) = None"
    by (simp add: acc_defs ex_defs)
  from a b d DeleteID_nil_parent [of "''o''" ex_cache 0 3] show ?thesis
    by blast
qed

section \<open>InsertID with the parent present\<close>




section \<open>InsertID followed by DeleteID\<close>




section \<open>MoveID\<close>

lemma metadata_rename_child [simp]:
  "metadata (rename_child a b parent c) = metadata c"
  by (simp add: rename_child_def split: option.splits)

lemma heap_rename_child_other:
  "x \<noteq> parent \<Longrightarrow> heap (rename_child a b parent c) x = heap c x"
  by (simp add: rename_child_def split: option.splits)

lemma child_ids_rename_child:
  "child_ids (heap (rename_child a b parent c) parent) =
     (case first_index a (child_ids (heap c parent)) of
        None \<Rightarrow> child_ids (heap c parent)
      | Some k \<Rightarrow> (child_ids (heap c parent))[k := b])"
  by (simp add: rename_child_def child_ids_def split: option.splits)










section \<open>Tombstones\<close>

text \<open>
  C1, as the claim states it, fails: applyDelta first looks up the parent id that the
  record carries and skips the record when that id is not registered, whether or not
  the record's own id is. The tombstone for the cached file \<open>c\<close> that names the
  unknown parent \<open>zz\<close> leaves the cache as it was.
\<close>

theorem applyDelta_skips_unknown_parent:
  "Deleted ex_tombstone_far \<and> GetID ex_cache (ID ex_tombstone_far) = Some 1
   \<and> GetID ex_cache (ParentID ex_tombstone_far) = None
   \<and> applyDelta ex_tombstone_far ex_cache = Inr ex_cache
   \<and> GetID ex_cache ''c'' = Some 1
   \<and> ''c'' \<in> set (child_ids (heap ex_cache 0))"
  by (simp add: applyDelta_def ex_tombstone_far_def acc_defs ex_defs)

text \<open>
  C1, amended. Let a record carry a tombstone, let the parent id it carries be
  registered, let its id be registered to an item, and let that item's own parent id
  resolve to a parent. Then applyDelta returns, the id is no longer registered, and the
  first occurrence of the id is gone from the parent's children: the list holds the id
  no more when it held no duplicates.
\<close>

theorem applyDelta_tombstone:
  assumes "Deleted r"
    and "GetID c (ParentID r) = Some rp"
    and "GetID c (ID r) = Some item"
    and "GetID c (ParentID (heap c item)) = Some parent"
  shows "\<exists>c'. applyDelta r c = Inr c' \<and> GetID c' (ID r) = None
           \<and> child_ids (heap c' parent) = remove1 (ID r) (child_ids (heap c parent))
           \<and> (distinct (child_ids (heap c parent)) \<longrightarrow> ID r \<notin> set (child_ids (heap c' parent)))"
proof -
  define c' where "c' = Unregister (ID r) (unlink_child (ID r) item parent c)"
  from assms have ap: "applyDelta r c = Inr c'"
    by (simp add: applyDelta_def DeleteID_def c'_def)
  have un: "GetID c' (ID r) = None"
    by (simp add: c'_def GetID_def)
  have cs: "child_ids (heap c' parent) = remove1 (ID r) (child_ids (heap c parent))"
    by (simp add: c'_def heap_unlink_child child_ids_def remove1_idem)
  from ap un cs show ?thesis by simp
qed

theorem applyDelta_tombstone_witness:
  "Deleted ex_tombstone \<and> GetID ex_cache (ParentID ex_tombstone) = Some 0
   \<and> GetID ex_cache (ID ex_tombstone) = Some 1
   \<and> GetID ex_cache (ParentID (heap ex_cache 1)) = Some 0
   \<and> distinct (child_ids (heap ex_cache 0))
   \<and> (\<exists>c'. applyDelta ex_tombstone ex_cache = Inr c' \<and> GetID c' ''c'' = None
         \<and> child_ids (heap c' 0) = [''d''] \<and> ''c'' \<notin> set (child_ids (heap c' 0)))"
proof -
  have h: "Deleted ex_tombstone \<and> GetID ex_cache (ParentID ex_tombstone) = Some 0
      \<and> GetID ex_cache (ID ex_tombstone) = Some 1
      \<and> GetID ex_cache (ParentID (heap ex_cache 1)) = Some 0
      \<and> distinct (child_ids (heap ex_cache 0))"
    by (simp add: ex_tombstone_def acc_defs ex_defs)
  have v: "ID ex_tombstone = ''c'' \<and> remove1 ''c'' (child_ids (heap ex_cache 0)) = [''d'']"
    by (simp add: ex_tombstone_def acc_defs ex_defs)
  from h applyDelta_tombstone [of ex_tombstone ex_cache 0 1 0]
  have "\<exists>c'. applyDelta ex_tombstone ex_cache = Inr c' \<and> GetID c' (ID ex_tombstone) = None
           \<and> child_ids (heap c' 0) = remove1 (ID ex_tombstone) (child_ids (heap ex_cache 0))
           \<and> ID ex_tombstone \<notin> set (child_ids (heap c' 0))"
    by blast
  with v h show ?thesis by simp
qed

section \<open>Delete by path\<close>








section \<open>pollDeltas\<close>


lemma deltaLink_upd_item [simp]: "deltaLink (upd_item a f c) = deltaLink c"
  by (simp add: upd_item_def)

lemma deltaLink_unlink_child [simp]: "deltaLink (unlink_child i item parent c) = deltaLink c"
  by (simp add: unlink_child_def Let_def split: option.splits)






section \<open>Population is one-way\<close>

text \<open>No operation of the cache sets a child list back to the nil slice.\<close>

lemma nextAddr_Store [simp]: "nextAddr (Store i a c) = nextAddr c"
  by (simp add: Store_def)

lemma nextAddr_Unregister [simp]: "nextAddr (Unregister i c) = nextAddr c"
  by (simp add: Unregister_def)

lemma nextAddr_upd_item [simp]: "nextAddr (upd_item a f c) = nextAddr c"
  by (simp add: upd_item_def)

lemma populated_Store [simp]: "populated a (Store i x c) = populated a c"
  by (simp add: populated_def)

lemma populated_Unregister [simp]: "populated a (Unregister i c) = populated a c"
  by (simp add: populated_def)









lemma populated_remote_gets [simp]:
  "populated a (c\<lparr>remote_gets := n\<rparr>) = populated a c"
  by (simp add: populated_def)

lemma populated_deltaLink [simp]:
  "populated a (c\<lparr>deltaLink := n\<rparr>) = populated a c"
  by (simp add: populated_def)















section \<open>Move there and back\<close>





lemma remote_gets_upd_item [simp]: "remote_gets (upd_item a f c) = remote_gets c"
  by (simp add: upd_item_def)

lemma remote_gets_Store [simp]: "remote_gets (Store i a c) = remote_gets c"
  by (simp add: Store_def)

lemma remote_gets_alloc [simp]: "remote_gets (alloc d c) = remote_gets c"
  by (simp add: alloc_def)
























section \<open>The count of directory children\<close>

lemma well_linkedI:
  assumes "\<And>i a. metadata c i = Some a \<Longrightarrow> a < nextAddr c"
    and "\<And>i a. metadata c i = Some a \<Longrightarrow> IDInternal (heap c a) = i"
    and "\<And>i a. metadata c i = Some a \<Longrightarrow> distinct (child_ids (heap c a))"
    and "\<And>i a x. metadata c i = Some a \<Longrightarrow> x \<in> set (child_ids (heap c a))
           \<Longrightarrow> \<exists>b. metadata c x = Some b \<and> Parent_ID (heap c b) = i"
    and "\<And>i a. metadata c i = Some a \<Longrightarrow> subdir (heap c a) = int (dir_count c a)"
  shows "well_linked c"
  using assms unfolding well_linked_def GetID_def ID_def ParentID_def by blast

lemma well_linked_alloc': "well_linked c \<Longrightarrow> metadata c i = Some a \<Longrightarrow> a < nextAddr c"
  by (simp add: well_linked_def GetID_def)

lemma well_linked_id: "well_linked c \<Longrightarrow> metadata c i = Some a \<Longrightarrow> IDInternal (heap c a) = i"
  by (simp add: well_linked_def GetID_def ID_def)

lemma well_linked_distinct:
  "well_linked c \<Longrightarrow> metadata c i = Some a \<Longrightarrow> distinct (child_ids (heap c a))"
  by (simp add: well_linked_def GetID_def)

lemma well_linked_child:
  "well_linked c \<Longrightarrow> metadata c i = Some a \<Longrightarrow> x \<in> set (child_ids (heap c a))
     \<Longrightarrow> \<exists>b. metadata c x = Some b \<and> Parent_ID (heap c b) = i"
  unfolding well_linked_def GetID_def ParentID_def by blast

lemma well_linked_subdir:
  "well_linked c \<Longrightarrow> metadata c i = Some a \<Longrightarrow> subdir (heap c a) = int (dir_count c a)"
  by (simp add: well_linked_def GetID_def)

lemma well_linked_inj:
  "well_linked c \<Longrightarrow> metadata c i = Some a \<Longrightarrow> metadata c j = Some a \<Longrightarrow> i = j"
  using well_linked_id by blast

lemma dir_count_cong:
  assumes "child_ids (heap c' a) = child_ids (heap c a)"
    and "\<And>x. x \<in> set (child_ids (heap c a)) \<Longrightarrow> resolves_to_dir c' x = resolves_to_dir c x"
  shows "dir_count c' a = dir_count c a"
  unfolding dir_count_def using assms
  by (metis (mono_tags, lifting) filter_cong)

lemma dir_count_unpopulated: "child_ids (heap c a) = [] \<Longrightarrow> dir_count c a = 0"
  by (simp add: dir_count_def)

lemma resolves_to_dir_eq:
  "resolves_to_dir c x = (case metadata c x of None \<Rightarrow> False | Some b \<Rightarrow> is_dir (heap c b))"
  by (simp add: resolves_to_dir_def GetID_def IsDir_def split: option.splits)

lemma dir_count_snoc:
  "child_ids (heap c' a) = child_ids (heap c a) @ [y]
   \<Longrightarrow> (\<And>x. x \<in> set (child_ids (heap c a)) \<Longrightarrow> resolves_to_dir c' x = resolves_to_dir c x)
   \<Longrightarrow> dir_count c' a = dir_count c a + (if resolves_to_dir c' y then 1 else 0)"
proof -
  assume l: "child_ids (heap c' a) = child_ids (heap c a) @ [y]"
    and r: "\<And>x. x \<in> set (child_ids (heap c a)) \<Longrightarrow> resolves_to_dir c' x = resolves_to_dir c x"
  from r have "filter (resolves_to_dir c') (child_ids (heap c a))
      = filter (resolves_to_dir c) (child_ids (heap c a))"
    by (metis (mono_tags, lifting) filter_cong)
  with l show ?thesis
    by (simp add: dir_count_def)
qed

lemma well_linked_Store_fresh:
  assumes wl: "well_linked c"
    and fresh: "metadata c i = None"
    and al: "item < nextAddr c"
    and idi: "IDInternal (heap c item) = i"
    and ch: "children (heap c item) = None"
    and sd: "subdir (heap c item) = 0"
  shows "well_linked (Store i item c)"
proof (rule well_linkedI)
  fix j a
  assume r: "metadata (Store i item c) j = Some a"
  show "a < nextAddr (Store i item c)"
    using r wl al by (auto simp: Store_def dest: well_linked_alloc' split: if_splits)
  show "IDInternal (heap (Store i item c) a) = j"
    using r wl idi by (auto dest: well_linked_id split: if_splits)
  show "distinct (child_ids (heap (Store i item c) a))"
    using r wl ch by (auto simp: child_ids_def dest: well_linked_distinct split: if_splits)
  show "subdir (heap (Store i item c) a) = int (dir_count (Store i item c) a)"
  proof (cases "j = i")
    case True
    with r ch sd show ?thesis
      by (simp add: dir_count_def child_ids_def)
  next
    case False
    with r have rc: "metadata c j = Some a" by simp
    have "dir_count (Store i item c) a = dir_count c a"
    proof (rule dir_count_cong)
      show "child_ids (heap (Store i item c) a) = child_ids (heap c a)" by simp
      fix x assume "x \<in> set (child_ids (heap c a))"
      from well_linked_child [OF wl rc this] fresh have "x \<noteq> i" by auto
      then show "resolves_to_dir (Store i item c) x = resolves_to_dir c x"
        by (simp add: resolves_to_dir_eq split: option.splits)
    qed
    with well_linked_subdir [OF wl rc] show ?thesis by simp
  qed
next
  fix j a x
  assume r: "metadata (Store i item c) j = Some a"
    and x: "x \<in> set (child_ids (heap (Store i item c) a))"
  show "\<exists>b. metadata (Store i item c) x = Some b \<and> Parent_ID (heap (Store i item c) b) = j"
  proof (cases "j = i")
    case True
    with r x ch show ?thesis by (simp add: child_ids_def)
  next
    case False
    with r have rc: "metadata c j = Some a" by simp
    from x have "x \<in> set (child_ids (heap c a))" by simp
    from well_linked_child [OF wl rc this] obtain b
      where b: "metadata c x = Some b" "Parent_ID (heap c b) = j"
      by auto
    with fresh have "x \<noteq> i" by auto
    with b show ?thesis by simp
  qed
qed

lemma resolves_to_dir_cong:
  "metadata c' = metadata c \<Longrightarrow> (\<And>b. metadata c x = Some b \<Longrightarrow> is_dir (heap c' b) = is_dir (heap c b))
     \<Longrightarrow> resolves_to_dir c' x = resolves_to_dir c x"
  by (simp add: resolves_to_dir_eq split: option.splits)

text \<open>Changes that leave the registry and the linking fields of every existing object alone.\<close>

lemma well_linked_frame:
  assumes wl: "well_linked c"
    and md: "metadata c' = metadata c"
    and nx: "nextAddr c \<le> nextAddr c'"
    and hp: "\<And>a. a < nextAddr c \<Longrightarrow>
               IDInternal (heap c' a) = IDInternal (heap c a)
               \<and> Parent_ID (heap c' a) = Parent_ID (heap c a)
               \<and> is_dir (heap c' a) = is_dir (heap c a)
               \<and> child_ids (heap c' a) = child_ids (heap c a)
               \<and> subdir (heap c' a) = subdir (heap c a)"
  shows "well_linked c'"
proof (rule well_linkedI)
  fix i a
  assume "metadata c' i = Some a"
  with md have r: "metadata c i = Some a" by simp
  note al = well_linked_alloc' [OF wl r]
  from al nx show "a < nextAddr c'" by simp
  from hp [OF al] well_linked_id [OF wl r] show "IDInternal (heap c' a) = i" by simp
  from hp [OF al] well_linked_distinct [OF wl r] show "distinct (child_ids (heap c' a))" by simp
  have "dir_count c' a = dir_count c a"
  proof (rule dir_count_cong)
    from hp [OF al] show "child_ids (heap c' a) = child_ids (heap c a)" by simp
    fix x
    show "resolves_to_dir c' x = resolves_to_dir c x"
      using md hp well_linked_alloc' [OF wl] by (intro resolves_to_dir_cong) auto
  qed
  with hp [OF al] well_linked_subdir [OF wl r]
  show "subdir (heap c' a) = int (dir_count c' a)" by simp
next
  fix i a x
  assume "metadata c' i = Some a" and x: "x \<in> set (child_ids (heap c' a))"
  with md have r: "metadata c i = Some a" by simp
  note al = well_linked_alloc' [OF wl r]
  from x hp [OF al] have "x \<in> set (child_ids (heap c a))" by simp
  from well_linked_child [OF wl r this] obtain b
    where b: "metadata c x = Some b" "Parent_ID (heap c b) = i" by auto
  with hp [OF well_linked_alloc' [OF wl b(1)]] md
  show "\<exists>b. metadata c' x = Some b \<and> Parent_ID (heap c' b) = i" by simp
qed

text \<open>Appending a registered child's id to its registered parent.\<close>

lemma well_linked_link:
  assumes wl: "well_linked c"
    and rp: "metadata c p = Some pa"
    and ri: "metadata c i = Some item"
    and pp: "Parent_ID (heap c item) = p"
    and ni: "i \<notin> set (child_ids (heap c pa))"
    and md: "metadata c' = metadata c"
    and nx: "nextAddr c' = nextAddr c"
    and hpa: "IDInternal (heap c' pa) = IDInternal (heap c pa)
               \<and> Parent_ID (heap c' pa) = Parent_ID (heap c pa)
               \<and> is_dir (heap c' pa) = is_dir (heap c pa)
               \<and> child_ids (heap c' pa) = child_ids (heap c pa) @ [i]
               \<and> subdir (heap c' pa) = subdir (heap c pa) + (if is_dir (heap c item) then 1 else 0)"
    and hp: "\<And>a. a \<noteq> pa \<Longrightarrow> a < nextAddr c \<Longrightarrow>
               IDInternal (heap c' a) = IDInternal (heap c a)
               \<and> Parent_ID (heap c' a) = Parent_ID (heap c a)
               \<and> is_dir (heap c' a) = is_dir (heap c a)
               \<and> child_ids (heap c' a) = child_ids (heap c a)
               \<and> subdir (heap c' a) = subdir (heap c a)"
  shows "well_linked c'"
proof -
  have fld: "IDInternal (heap c' a) = IDInternal (heap c a)
      \<and> Parent_ID (heap c' a) = Parent_ID (heap c a)
      \<and> is_dir (heap c' a) = is_dir (heap c a)" if "a < nextAddr c" for a
    using hpa hp [OF _ that] by (cases "a = pa") auto
  have rd: "resolves_to_dir c' x = resolves_to_dir c x" for x
    using md fld well_linked_alloc' [OF wl] by (intro resolves_to_dir_cong) auto
  show ?thesis
  proof (rule well_linkedI)
    fix j a
    assume "metadata c' j = Some a"
    with md have r: "metadata c j = Some a" by simp
    note al = well_linked_alloc' [OF wl r]
    from al nx show "a < nextAddr c'" by simp
    from fld [OF al] well_linked_id [OF wl r] show "IDInternal (heap c' a) = j" by simp
    show "distinct (child_ids (heap c' a))"
      using hpa hp [OF _ al] ni well_linked_distinct [OF wl r] by (cases "a = pa") auto
    show "subdir (heap c' a) = int (dir_count c' a)"
    proof (cases "a = pa")
      case True
      have "dir_count c' pa = dir_count c pa + (if resolves_to_dir c' i then 1 else 0)"
        using hpa rd by (intro dir_count_snoc) auto
      moreover have "resolves_to_dir c i = is_dir (heap c item)"
        using ri by (simp add: resolves_to_dir_eq)
      then have "resolves_to_dir c' i = is_dir (heap c item)"
        by (simp only: rd)
      ultimately show ?thesis
        using True hpa well_linked_subdir [OF wl rp] by simp
    next
      case False
      have "dir_count c' a = dir_count c a"
        using hp [OF False al] rd by (intro dir_count_cong) auto
      with hp [OF False al] well_linked_subdir [OF wl r] show ?thesis by simp
    qed
  next
    fix j a x
    assume "metadata c' j = Some a" and x: "x \<in> set (child_ids (heap c' a))"
    with md have r: "metadata c j = Some a" by simp
    note al = well_linked_alloc' [OF wl r]
    show "\<exists>b. metadata c' x = Some b \<and> Parent_ID (heap c' b) = j"
    proof (cases "a = pa \<and> x = i")
      case True
      with r rp wl have "j = p" by (auto dest: well_linked_inj)
      with True ri pp md fld [OF well_linked_alloc' [OF wl ri]] show ?thesis by simp
    next
      case False
      with x hpa hp [OF _ al] have "x \<in> set (child_ids (heap c a))"
        by (cases "a = pa") auto
      from well_linked_child [OF wl r this] obtain b
        where b: "metadata c x = Some b" "Parent_ID (heap c b) = j" by auto
      with fld [OF well_linked_alloc' [OF wl b(1)]] md show ?thesis by simp
    qed
  qed
qed

lemma nextAddr_InsertID: "InsertID i item c = Inr c' \<Longrightarrow> nextAddr c' = nextAddr c"
  by (auto simp: InsertID_def Let_def split: if_splits option.splits)

lemma well_linked_InsertID_stored:
  assumes wS: "well_linked (Store i item c)"
    and ex: "InsertID i item c = Inr c'"
  shows "well_linked c'"
proof -
  let ?cS = "Store i item c"
  let ?p = "Parent_ID (heap c item)"
  have ri: "metadata ?cS i = Some item" by simp
  from well_linked_id [OF wS ri] have idi: "IDInternal (heap c item) = i" by simp
  show ?thesis
  proof (cases "?p \<noteq> [] \<and> (\<exists>pa. metadata ?cS ?p = Some pa
                   \<and> i \<notin> set (child_ids (heap c pa)))")
    case False
    with ex have "c' = ?cS"
      by (auto simp: InsertID_def Let_def acc_defs split: option.splits if_splits)
    with wS show ?thesis by simp
  next
    case True
    then obtain pa where rp: "metadata ?cS ?p = Some pa"
      and ni: "i \<notin> set (child_ids (heap c pa))" and pne: "?p \<noteq> []"
      by auto
    from ex rp ni pne have pai: "pa \<noteq> item"
      by (auto simp: InsertID_def Let_def acc_defs split: if_splits)
    from well_linked_id [OF wS rp] have idpa: "IDInternal (heap c pa) = ?p"
      by simp
    from ex rp ni pne pai have md: "metadata c' = metadata ?cS"
      and hpa: "heap c' pa = (heap c pa)\<lparr>
          subdir := subdir (heap c pa) + (if is_dir (heap c item) then 1 else 0),
          children := Some (child_ids (heap c pa) @ [i])\<rparr>"
      and hp: "\<And>a. a \<noteq> pa \<Longrightarrow> heap c' a = heap c a"
      by (auto simp: InsertID_def Let_def acc_defs idi idpa split: if_splits)
    show ?thesis
    proof (rule well_linked_link [OF wS rp ri _ _ md])
      show "Parent_ID (heap ?cS item) = ?p" by simp
      from ni show "i \<notin> set (child_ids (heap ?cS pa))" by simp
      from nextAddr_InsertID [OF ex] show "nextAddr c' = nextAddr ?cS" by (simp add: Store_def)
      show "IDInternal (heap c' pa) = IDInternal (heap ?cS pa)
               \<and> Parent_ID (heap c' pa) = Parent_ID (heap ?cS pa)
               \<and> is_dir (heap c' pa) = is_dir (heap ?cS pa)
               \<and> child_ids (heap c' pa) = child_ids (heap ?cS pa) @ [i]
               \<and> subdir (heap c' pa) = subdir (heap ?cS pa)
                    + (if is_dir (heap ?cS item) then 1 else 0)"
        by (simp add: hpa child_ids_def)
      fix a assume "a \<noteq> pa"
      from hp [OF this]
      show "IDInternal (heap c' a) = IDInternal (heap ?cS a)
               \<and> Parent_ID (heap c' a) = Parent_ID (heap ?cS a)
               \<and> is_dir (heap c' a) = is_dir (heap ?cS a)
               \<and> child_ids (heap c' a) = child_ids (heap ?cS a)
               \<and> subdir (heap c' a) = subdir (heap ?cS a)"
        by simp
    qed
  qed
qed

lemma well_linked_InsertID:
  assumes wl: "well_linked c"
    and pre: "permitted rem (OpInsertID i item) c"
    and ex: "InsertID i item c = Inr c'"
  shows "well_linked c'"
proof -
  from wl pre have "well_linked (Store i item c)"
    by (intro well_linked_Store_fresh) (simp_all add: ID_def GetID_def)
  from well_linked_InsertID_stored [OF this ex] show ?thesis .
qed

lemma length_filter_remove1:
  "x \<in> set xs \<Longrightarrow> length (filter P (remove1 x xs)) + (if P x then 1 else 0) = length (filter P xs)"
  by (induction xs) auto

text \<open>Removing a registered child from its registered parent and from the registry.\<close>

lemma well_linked_unlink:
  assumes wl: "well_linked c"
    and ri: "metadata c i = Some item"
    and rp: "metadata c (Parent_ID (heap c item)) = Some pa"
    and md: "metadata c' = (metadata c)(i := None)"
    and nx: "nextAddr c' = nextAddr c"
    and hpa: "i \<in> set (child_ids (heap c pa)) \<Longrightarrow>
               IDInternal (heap c' pa) = IDInternal (heap c pa)
               \<and> Parent_ID (heap c' pa) = Parent_ID (heap c pa)
               \<and> is_dir (heap c' pa) = is_dir (heap c pa)
               \<and> child_ids (heap c' pa) = remove1 i (child_ids (heap c pa))
               \<and> subdir (heap c' pa) = subdir (heap c pa) - (if is_dir (heap c item) then 1 else 0)"
    and hp: "\<And>a. a \<noteq> pa \<or> i \<notin> set (child_ids (heap c pa)) \<Longrightarrow> heap c' a = heap c a"
  shows "well_linked c'"
proof -
  let ?cs = "child_ids (heap c pa)"
  have fld: "IDInternal (heap c' a) = IDInternal (heap c a)
      \<and> Parent_ID (heap c' a) = Parent_ID (heap c a)
      \<and> is_dir (heap c' a) = is_dir (heap c a)" for a
    using hpa hp [of a] by (cases "a = pa \<and> i \<in> set ?cs") auto
  have sub: "set (child_ids (heap c' a)) \<subseteq> set (child_ids (heap c a))" for a
    using hpa hp [of a] set_remove1_subset [of i ?cs]
    by (cases "a = pa \<and> i \<in> set ?cs") auto
  have rd: "resolves_to_dir c' x = resolves_to_dir c x" if "x \<noteq> i" for x
    using that md fld by (simp add: resolves_to_dir_eq split: option.splits)
  have only_pa: "a = pa" if "metadata c j = Some a" "i \<in> set (child_ids (heap c a))" for j a
  proof -
    from well_linked_child [OF wl that] ri have "Parent_ID (heap c item) = j" by auto
    with rp that(1) show ?thesis by simp
  qed
  have gone: "i \<notin> set (child_ids (heap c' a))" if "metadata c j = Some a" for j a
  proof (cases "i \<in> set (child_ids (heap c a))")
    case True
    with only_pa [OF that] have a: "a = pa" and m: "i \<in> set ?cs" by simp_all
    from well_linked_distinct [OF wl rp] have "i \<notin> set (remove1 i ?cs)" by simp
    with a hpa [OF m] show ?thesis by simp
  next
    case False
    with sub show ?thesis by blast
  qed
  show ?thesis
  proof (rule well_linkedI)
    fix j a
    assume r': "metadata c' j = Some a"
    with md have r: "metadata c j = Some a" and ji: "j \<noteq> i"
      by (auto split: if_splits)
    from well_linked_alloc' [OF wl r] nx show "a < nextAddr c'" by simp
    from fld well_linked_id [OF wl r] show "IDInternal (heap c' a) = j" by simp
    show "distinct (child_ids (heap c' a))"
      using hpa hp [of a] well_linked_distinct [OF wl r]
      by (cases "a = pa \<and> i \<in> set ?cs") auto
    show "subdir (heap c' a) = int (dir_count c' a)"
    proof (cases "a = pa \<and> i \<in> set ?cs")
      case True
      then have a: "a = pa" and m: "i \<in> set ?cs" by simp_all
      from gone [OF r] a have "\<And>x. x \<in> set (child_ids (heap c' pa)) \<Longrightarrow> x \<noteq> i"
        by auto
      then have "filter (resolves_to_dir c') (child_ids (heap c' pa))
          = filter (resolves_to_dir c) (child_ids (heap c' pa))"
        by (intro filter_cong) (auto simp: rd)
      then have "dir_count c' pa = length (filter (resolves_to_dir c) (remove1 i ?cs))"
        using hpa [OF m] by (simp add: dir_count_def)
      moreover have "resolves_to_dir c i = is_dir (heap c item)"
        using ri by (simp add: resolves_to_dir_eq)
      ultimately have "int (dir_count c' pa) + (if is_dir (heap c item) then 1 else 0)
          = int (dir_count c pa)"
        using length_filter_remove1 [OF m, of "resolves_to_dir c"]
        by (auto simp: dir_count_def)
      with a hpa [OF m] well_linked_subdir [OF wl rp] show ?thesis by simp
    next
      case False
      with hp [of a] have same: "heap c' a = heap c a" by auto
      have "dir_count c' a = dir_count c a"
      proof (rule dir_count_cong)
        from same show "child_ids (heap c' a) = child_ids (heap c a)" by simp
        fix x assume "x \<in> set (child_ids (heap c a))"
        with gone [OF r] same have "x \<noteq> i" by auto
        then show "resolves_to_dir c' x = resolves_to_dir c x" by (rule rd)
      qed
      with same well_linked_subdir [OF wl r] show ?thesis by simp
    qed
  next
    fix j a x
    assume r': "metadata c' j = Some a" and x: "x \<in> set (child_ids (heap c' a))"
    with md have r: "metadata c j = Some a" and ji: "j \<noteq> i"
      by (auto split: if_splits)
    from x sub have "x \<in> set (child_ids (heap c a))" by blast
    from well_linked_child [OF wl r this] obtain b
      where b: "metadata c x = Some b" "Parent_ID (heap c b) = j" by auto
    from gone [OF r] x have "x \<noteq> i" by auto
    with b md fld show "\<exists>b. metadata c' x = Some b \<and> Parent_ID (heap c' b) = j" by simp
  qed
qed

lemma well_linked_DeleteID:
  assumes wl: "well_linked c" and ex: "DeleteID i c = Inr c'"
  shows "well_linked c'"
proof (cases "metadata c i")
  case None
  with ex have c': "c' = Unregister i c"
    by (simp add: DeleteID_def GetID_def)
  from None have "metadata c' = metadata c"
    by (auto simp: c')
  with wl show ?thesis
    by (rule well_linked_frame) (simp_all add: c' Unregister_def)
next
  case (Some item)
  with ex obtain pa where rp: "metadata c (Parent_ID (heap c item)) = Some pa"
    and c': "c' = Unregister i (unlink_child i item pa c)"
    by (auto simp: DeleteID_def acc_defs split: option.splits)
  show ?thesis
  proof (rule well_linked_unlink [OF wl Some rp])
    show "metadata c' = (metadata c)(i := None)" by (simp add: c')
    show "nextAddr c' = nextAddr c"
      by (simp add: c' Unregister_def unlink_child_def upd_item_def Let_def split: option.splits)
    show "heap c' a = heap c a" if "a \<noteq> pa \<or> i \<notin> set (child_ids (heap c pa))" for a
      using that by (auto simp: c' heap_unlink_child)
    assume "i \<in> set (child_ids (heap c pa))"
    then show "IDInternal (heap c' pa) = IDInternal (heap c pa)
               \<and> Parent_ID (heap c' pa) = Parent_ID (heap c pa)
               \<and> is_dir (heap c' pa) = is_dir (heap c pa)
               \<and> child_ids (heap c' pa) = remove1 i (child_ids (heap c pa))
               \<and> subdir (heap c' pa) = subdir (heap c pa) - (if is_dir (heap c item) then 1 else 0)"
      by (simp add: c' heap_unlink_child child_ids_def)
  qed
qed

lemma update_first_map:
  "distinct xs \<Longrightarrow> first_index a xs = Some k
     \<Longrightarrow> xs[k := b] = map (\<lambda>z. if z = a then b else z) xs"
proof (induction xs arbitrary: k)
  case Nil
  then show ?case by simp
next
  case (Cons y ys)
  show ?case
  proof (cases "y = a")
    case True
    with Cons.prems have "a \<notin> set ys" and "k = 0" by auto
    then have "map (\<lambda>z. if z = a then b else z) ys = ys"
      by (intro map_idI) auto
    with True \<open>k = 0\<close> show ?thesis by simp
  next
    case False
    with Cons.prems obtain j where j: "first_index a ys = Some j" "k = Suc j"
      by auto
    with Cons.IH [OF _ j(1)] Cons.prems(1) False show ?thesis by simp
  qed
qed

text \<open>Registering an item without children under a new id, in the registry and in every list.\<close>

lemma well_linked_rename:
  assumes wl: "well_linked c"
    and ra: "metadata c a = Some item"
    and fresh: "metadata c b = None"
    and ab: "a \<noteq> b"
    and leaf: "child_ids (heap c item) = []"
    and md: "metadata c' = (metadata c)(a := None, b \<mapsto> item)"
    and nx: "nextAddr c' = nextAddr c"
    and hi: "IDInternal (heap c' item) = b
             \<and> Parent_ID (heap c' item) = Parent_ID (heap c item)
             \<and> is_dir (heap c' item) = is_dir (heap c item)
             \<and> child_ids (heap c' item) = []
             \<and> subdir (heap c' item) = subdir (heap c item)"
    and hx: "\<And>j x. metadata c j = Some x \<Longrightarrow> x \<noteq> item \<Longrightarrow>
               IDInternal (heap c' x) = IDInternal (heap c x)
               \<and> Parent_ID (heap c' x) = Parent_ID (heap c x)
               \<and> is_dir (heap c' x) = is_dir (heap c x)
               \<and> child_ids (heap c' x) = map (\<lambda>z. if z = a then b else z) (child_ids (heap c x))
               \<and> subdir (heap c' x) = subdir (heap c x)"
  shows "well_linked c'"
proof -
  let ?f = "\<lambda>z. if z = a then b else z"
  have reg: "metadata c j = Some x \<and> x \<noteq> item \<and> j \<noteq> a"
    if "metadata c' j = Some x" "j \<noteq> b" for j x
    using that md ra wl by (auto split: if_splits dest: well_linked_inj)
  have nb: "b \<notin> set (child_ids (heap c x))" if "metadata c j = Some x" for j x
    using well_linked_child [OF wl that, of b] fresh by auto
  have fields: "Parent_ID (heap c' x) = Parent_ID (heap c x) \<and> is_dir (heap c' x) = is_dir (heap c x)"
    if "metadata c j = Some x" for j x
    using that hi hx by (cases "x = item") auto
  have rd: "resolves_to_dir c' (?f z) = resolves_to_dir c z"
    if "metadata c j = Some x" "z \<in> set (child_ids (heap c x))" for j x z
  proof (cases "z = a")
    case True
    with ra md hi show ?thesis by (simp add: resolves_to_dir_eq)
  next
    case False
    from nb [OF that(1)] that(2) have zb: "z \<noteq> b" by auto
    from well_linked_child [OF wl that] obtain w where w: "metadata c z = Some w" by auto
    with False zb md fields [OF w] show ?thesis by (simp add: resolves_to_dir_eq)
  qed
  show ?thesis
  proof (rule well_linkedI)
    fix j x
    assume r': "metadata c' j = Some x"
    show "x < nextAddr c'"
      using r' md nx ra well_linked_alloc' [OF wl] by (auto split: if_splits)
    show "IDInternal (heap c' x) = j"
    proof (cases "j = b")
      case True
      with r' md hi show ?thesis by simp
    next
      case False
      from reg [OF r' False] hx well_linked_id [OF wl] show ?thesis by auto
    qed
    show "distinct (child_ids (heap c' x))"
    proof (cases "j = b")
      case True
      with r' md hi show ?thesis by simp
    next
      case False
      note r = reg [OF r' False]
      then have rx: "metadata c j = Some x" by simp
      from r hx [of j x] have h: "child_ids (heap c' x) = map ?f (child_ids (heap c x))"
        by blast
      from nb [OF rx] have "inj_on ?f (set (child_ids (heap c x)))"
        by (auto simp: inj_on_def)
      with well_linked_distinct [OF wl rx] show ?thesis
        by (simp add: h distinct_map)
    qed
    show "subdir (heap c' x) = int (dir_count c' x)"
    proof (cases "j = b")
      case True
      with r' md have "x = item" by simp
      with hi leaf well_linked_subdir [OF wl ra] show ?thesis
        by (simp add: dir_count_def)
    next
      case False
      note r = reg [OF r' False]
      then have rx: "metadata c j = Some x" by simp
      have "filter (resolves_to_dir c' \<circ> ?f) (child_ids (heap c x))
          = filter (resolves_to_dir c) (child_ids (heap c x))"
        using rd [OF rx] by (intro filter_cong) auto
      moreover from r hx [of j x]
      have h: "child_ids (heap c' x) = map ?f (child_ids (heap c x))
          \<and> subdir (heap c' x) = subdir (heap c x)"
        by blast
      ultimately have "dir_count c' x = dir_count c x"
        by (simp add: dir_count_def filter_map)
      with h well_linked_subdir [OF wl rx] show ?thesis by simp
    qed
  next
    fix j x y
    assume r': "metadata c' j = Some x" and y: "y \<in> set (child_ids (heap c' x))"
    show "\<exists>w. metadata c' y = Some w \<and> Parent_ID (heap c' w) = j"
    proof (cases "j = b")
      case True
      with r' md y hi show ?thesis by simp
    next
      case False
      note r = reg [OF r' False]
      then have rx: "metadata c j = Some x" by simp
      from r hx [of j x] have h: "child_ids (heap c' x) = map ?f (child_ids (heap c x))"
        by blast
      with y obtain z where z: "z \<in> set (child_ids (heap c x))" "y = ?f z"
        by auto
      from well_linked_child [OF wl rx z(1)] obtain w
        where w: "metadata c z = Some w" "Parent_ID (heap c w) = j" by auto
      show ?thesis
      proof (cases "z = a")
        case True
        with w ra z md hi show ?thesis by auto
      next
        case zna: False
        from nb [OF rx] z(1) have "z \<noteq> b" by auto
        with zna w z md fields [OF w(1)] show ?thesis by simp
      qed
    qed
  qed
qed

lemma fields_rename_child:
  "IDInternal (heap (rename_child a b pa c) x) = IDInternal (heap c x)
   \<and> Parent_ID (heap (rename_child a b pa c) x) = Parent_ID (heap c x)
   \<and> is_dir (heap (rename_child a b pa c) x) = is_dir (heap c x)
   \<and> subdir (heap (rename_child a b pa c) x) = subdir (heap c x)"
  by (simp add: rename_child_def split: option.splits)

lemma nextAddr_rename_child [simp]: "nextAddr (rename_child a b pa c) = nextAddr c"
  by (simp add: rename_child_def split: option.splits)

lemma nextAddr_unlink_child [simp]: "nextAddr (unlink_child i item pa c) = nextAddr c"
  by (simp add: unlink_child_def Let_def split: option.splits)

lemma child_ids_rename_map:
  assumes "distinct (child_ids (heap c pa))" and "a \<noteq> b"
  shows "child_ids (heap (rename_child a b pa c) x)
           = (if x = pa then map (\<lambda>z. if z = a then b else z) (child_ids (heap c pa))
              else child_ids (heap c x))"
proof (cases "x = pa")
  case False
  then show ?thesis by (simp add: heap_rename_child_other)
next
  case True
  show ?thesis
  proof (cases "first_index a (child_ids (heap c pa))")
    case None
    then have "a \<notin> set (child_ids (heap c pa))" by (simp add: first_index_None)
    then have "map (\<lambda>z. if z = a then b else z) (child_ids (heap c pa)) = child_ids (heap c pa)"
      by (intro map_idI) auto
    with None True show ?thesis by (simp add: child_ids_rename_child)
  next
    case (Some k)
    with update_first_map [OF assms(1) Some, of b] True show ?thesis
      by (simp add: child_ids_rename_child)
  qed
qed

lemma well_linked_MoveID:
  assumes wl: "well_linked c"
    and pre: "permitted rem (OpMoveID a b) c"
    and ex: "MoveID a b c = Inr (c', e)"
  shows "well_linked c'"
proof (cases "metadata c a")
  case None
  with pre ex have "c' = c"
    by (simp add: MoveID_def GetID_def)
  with wl show ?thesis by simp
next
  case (Some item)
  let ?f = "\<lambda>z. if z = a then b else z"
  let ?p = "Parent_ID (heap c item)"
  from pre Some have ab: "a \<noteq> b" and fresh: "metadata c b = None"
    and leaf: "child_ids (heap c item) = []"
    by (simp_all add: GetID_def)
  from ex Some obtain pa where rp: "metadata c ?p = Some pa"
    by (auto simp: MoveID_def acc_defs split: option.splits)
  define c1 where "c1 = rename_child a b pa c"
  define c2 where "c2 = upd_item item (\<lambda>d. d\<lparr>IDInternal := b\<rparr>) c1"
  define c3 where "c3 = Unregister a (unlink_child a item pa c2)"
  note dpa = well_linked_distinct [OF wl rp]
  have l2: "child_ids (heap c2 x)
      = (if x = pa then map ?f (child_ids (heap c pa)) else child_ids (heap c x))" for x
  proof -
    have "child_ids (heap c2 x) = child_ids (heap c1 x)"
      by (simp add: c2_def child_ids_def)
    with child_ids_rename_map [OF dpa ab, of x] show ?thesis
      by (simp only: c1_def)
  qed
  have f2: "IDInternal (heap c2 x) = (if x = item then b else IDInternal (heap c x))
      \<and> Parent_ID (heap c2 x) = Parent_ID (heap c x)
      \<and> is_dir (heap c2 x) = is_dir (heap c x)
      \<and> subdir (heap c2 x) = subdir (heap c x)" for x
    using fields_rename_child [of a b pa c x] by (auto simp: c2_def c1_def)
  from ab have "a \<notin> set (child_ids (heap c2 pa))"
    by (auto simp: l2)
  then have h3: "heap c3 = heap c2"
    by (simp add: c3_def heap_unlink_child)
  from Some rp have del: "DeleteID a c2 = Inr c3"
    using f2 [of item] by (simp add: DeleteID_def acc_defs c3_def c2_def c1_def)
  with ex Some rp have ins: "InsertID b item c3 = Inr c'"
    by (auto simp: MoveID_def acc_defs Let_def c1_def c2_def split: sum.splits)
  have only_pa: "x = pa" if "metadata c j = Some x" "a \<in> set (child_ids (heap c x))" for j x
  proof -
    from well_linked_child [OF wl that] Some have "?p = j" by auto
    with rp that(1) show ?thesis by simp
  qed
  have "well_linked (Store b item c3)"
  proof (rule well_linked_rename [OF wl Some fresh ab leaf])
    show "metadata (Store b item c3) = (metadata c)(a := None, b \<mapsto> item)"
      by (simp add: c3_def c2_def c1_def)
    show "nextAddr (Store b item c3) = nextAddr c"
      by (simp add: Store_def c3_def Unregister_def c2_def upd_item_def c1_def)
    show "IDInternal (heap (Store b item c3) item) = b
             \<and> Parent_ID (heap (Store b item c3) item) = Parent_ID (heap c item)
             \<and> is_dir (heap (Store b item c3) item) = is_dir (heap c item)
             \<and> child_ids (heap (Store b item c3) item) = []
             \<and> subdir (heap (Store b item c3) item) = subdir (heap c item)"
      using f2 [of item] l2 [of item] leaf by (auto simp: h3)
    fix j x
    assume r: "metadata c j = Some x" and xi: "x \<noteq> item"
    have "child_ids (heap c2 x) = map ?f (child_ids (heap c x))"
    proof (cases "x = pa")
      case True
      then show ?thesis by (simp add: l2)
    next
      case False
      with only_pa [OF r] have "a \<notin> set (child_ids (heap c x))" by auto
      then have "map ?f (child_ids (heap c x)) = child_ids (heap c x)"
        by (intro map_idI) auto
      with False show ?thesis by (simp add: l2)
    qed
    with f2 [of x] xi
    show "IDInternal (heap (Store b item c3) x) = IDInternal (heap c x)
               \<and> Parent_ID (heap (Store b item c3) x) = Parent_ID (heap c x)
               \<and> is_dir (heap (Store b item c3) x) = is_dir (heap c x)
               \<and> child_ids (heap (Store b item c3) x) = map ?f (child_ids (heap c x))
               \<and> subdir (heap (Store b item c3) x) = subdir (heap c x)"
      by (simp add: h3)
  qed
  from well_linked_InsertID_stored [OF this ins] show ?thesis .
qed

lemma well_linked_alloc: "well_linked c \<Longrightarrow> well_linked (alloc d c)"
  by (rule well_linked_frame) (auto simp: alloc_def)

lemma well_linked_store_fetched:
  assumes "well_linked c"
    and "metadata c i = Some item"
    and "distinct (map IDInternal rs)"
    and "\<forall>r \<in> set rs. metadata c (IDInternal r) = None \<and> Parent_ID r = i"
  shows "well_linked (fst (store_fetched item rs m c))"
  using assms
proof (induction rs arbitrary: m c)
  case Nil
  then show ?case by simp
next
  case (Cons r rs)
  note wl = Cons.prems(1) and ri = Cons.prems(2)
  let ?n = "IDInternal r"
  define child where "child = nextAddr c"
  define c1 where "c1 = alloc (decoded r) c"
  define c2 where "c2 = Store (IDInternal (heap c1 child)) child c1"
  define m' where "m' = m(ToLower (Name (heap c2 child)) \<mapsto> child)"
  define c3 where "c3 = upd_item item
      (\<lambda>p. p\<lparr>children := Some (child_ids p @ [IDInternal (heap c2 child)])\<rparr>) c2"
  define c4 where "c4 = (if IsDir (heap c3 child)
      then upd_item item (\<lambda>p. p\<lparr>subdir := subdir p + 1\<rparr>) c3 else c3)"
  have step: "store_fetched item (r # rs) m c = store_fetched item rs m' c4"
    by (simp only: store_fetched.simps Let_def child_def c1_def c2_def m'_def c3_def c4_def)
  from Cons.prems have fresh: "metadata c ?n = None" and pr: "Parent_ID r = i"
    and rest: "distinct (map IDInternal rs)" "?n \<notin> IDInternal ` set rs"
      "\<forall>r' \<in> set rs. metadata c (IDInternal r') = None \<and> Parent_ID r' = i"
    by auto
  from well_linked_alloc' [OF wl ri] have ic: "item \<noteq> child"
    by (simp add: child_def)
  have h1: "heap c1 child = decoded r"
    by (simp add: c1_def child_def alloc_def)
  have c2': "c2 = Store ?n child c1"
    by (simp add: c2_def h1 decoded_def)
  have w2: "well_linked c2"
    unfolding c2'
  proof (rule well_linked_Store_fresh)
    from wl show "well_linked c1" unfolding c1_def by (rule well_linked_alloc)
    from fresh show "metadata c1 ?n = None" by (simp add: c1_def alloc_def)
    show "child < nextAddr c1" by (simp add: c1_def child_def alloc_def)
    show "IDInternal (heap c1 child) = ?n" by (simp add: h1 decoded_def)
    show "children (heap c1 child) = None" by (simp add: h1 decoded_def)
    show "subdir (heap c1 child) = 0" by (simp add: h1 decoded_def)
  qed
  from fresh ri have ne: "i \<noteq> ?n" by auto
  have m2: "metadata c2 = (metadata c)(?n \<mapsto> child)"
    by (simp add: c2' c1_def alloc_def)
  have hc2: "heap c2 = (heap c)(child := decoded r)"
    by (simp add: c2' c1_def alloc_def child_def)
  have ni: "?n \<notin> set (child_ids (heap c item))"
    using well_linked_child [OF wl ri, of ?n] fresh by auto
  have w4: "well_linked c4"
  proof (rule well_linked_link [OF w2, of i item ?n child])
    from ri ne show "metadata c2 i = Some item" by (simp add: m2)
    show "metadata c2 ?n = Some child" by (simp add: m2)
    from pr show "Parent_ID (heap c2 child) = i" by (simp add: hc2 decoded_def)
    from ni ic show "?n \<notin> set (child_ids (heap c2 item))" by (simp add: hc2)
    show "metadata c4 = metadata c2" by (simp add: c4_def c3_def)
    show "nextAddr c4 = nextAddr c2" by (simp add: c4_def c3_def upd_item_def)
    from ic show "IDInternal (heap c4 item) = IDInternal (heap c2 item)
               \<and> Parent_ID (heap c4 item) = Parent_ID (heap c2 item)
               \<and> is_dir (heap c4 item) = is_dir (heap c2 item)
               \<and> child_ids (heap c4 item) = child_ids (heap c2 item) @ [?n]
               \<and> subdir (heap c4 item) = subdir (heap c2 item)
                    + (if is_dir (heap c2 child) then 1 else 0)"
      by (simp add: c4_def c3_def hc2 IsDir_def decoded_def child_ids_def)
    fix x assume "x \<noteq> item"
    then show "IDInternal (heap c4 x) = IDInternal (heap c2 x)
               \<and> Parent_ID (heap c4 x) = Parent_ID (heap c2 x)
               \<and> is_dir (heap c4 x) = is_dir (heap c2 x)
               \<and> child_ids (heap c4 x) = child_ids (heap c2 x)
               \<and> subdir (heap c4 x) = subdir (heap c2 x)"
      by (simp add: c4_def c3_def)
  qed
  have m4: "metadata c4 = (metadata c)(?n \<mapsto> child)"
    by (simp add: c4_def c3_def m2)
  show ?case
    unfolding step
  proof (rule Cons.IH [OF w4 _ rest(1)])
    from ri ne show "metadata c4 i = Some item" by (simp add: m4)
    from rest(2) have "\<forall>r' \<in> set rs. IDInternal r' \<noteq> ?n"
      by (metis imageI)
    with rest(3) show "\<forall>r' \<in> set rs. metadata c4 (IDInternal r') = None \<and> Parent_ID r' = i"
      by (simp add: m4)
  qed
qed

lemma well_linked_GetChildrenID:
  assumes wl: "well_linked c"
    and pre: "permitted rem (OpGetChildrenID i au) c"
  shows "well_linked (fst (GetChildrenID rem i au c))"
proof -
  have idle: "well_linked (c\<lparr>remote_gets := n\<rparr>)" for n
    using wl by (rule well_linked_frame) simp_all
  have "well_linked (fst (store_fetched item rs Map.empty
          (upd_item item (\<lambda>p. p\<lparr>children := Some []\<rparr>) (c\<lparr>remote_gets := Suc (remote_gets c)\<rparr>))))"
    if ri: "metadata c i = Some item" and un: "children (heap c item) = None"
      and rs: "rem (remote_gets c) i = Inr rs" for item rs
  proof (rule well_linked_store_fetched [where i = i])
    show "well_linked (upd_item item (\<lambda>p. p\<lparr>children := Some []\<rparr>)
        (c\<lparr>remote_gets := Suc (remote_gets c)\<rparr>))"
      using wl by (rule well_linked_frame) (auto simp: un child_ids_def upd_item_def)
    from ri show "metadata (upd_item item (\<lambda>p. p\<lparr>children := Some []\<rparr>)
        (c\<lparr>remote_gets := Suc (remote_gets c)\<rparr>)) i = Some item"
      by simp
    from pre rs show "distinct (map IDInternal rs)" by simp
    from pre rs show "\<forall>r \<in> set rs. metadata (upd_item item (\<lambda>p. p\<lparr>children := Some []\<rparr>)
        (c\<lparr>remote_gets := Suc (remote_gets c)\<rparr>)) (IDInternal r) = None \<and> Parent_ID r = i"
      by (simp add: GetID_def)
  qed
  note fetch = this
  show ?thesis
  proof (cases "metadata c i")
    case None
    with wl show ?thesis by (simp add: GetChildrenID_def GetID_def)
  next
    case (Some item)
    show ?thesis
    proof (cases "IsDir (heap c item) \<and> children (heap c item) = None
        \<and> (\<exists>a. au = Some a \<and> AccessToken a \<noteq> [])")
      case False
      with Some have "fst (GetChildrenID rem i au c) = c"
        by (auto simp: GetChildrenID_def GetID_def split: option.splits)
      with wl show ?thesis by simp
    next
      case True
      show ?thesis
      proof (cases "rem (remote_gets c) i")
        case (Inl err)
        with True Some have "fst (GetChildrenID rem i au c) = c\<lparr>remote_gets := Suc (remote_gets c)\<rparr>"
          by (auto simp: GetChildrenID_def GetID_def Let_def)
        with idle show ?thesis by simp
      next
        case (Inr rs)
        with True Some have "fst (GetChildrenID rem i au c) =
            fst (store_fetched item rs Map.empty
              (upd_item item (\<lambda>p. p\<lparr>children := Some []\<rparr>)
                (c\<lparr>remote_gets := Suc (remote_gets c)\<rparr>)))"
          by (auto simp: GetChildrenID_def GetID_def Let_def split_beta)
        with fetch [OF Some _ Inr] True show ?thesis by simp
      qed
    qed
  qed
qed

lemma well_linked_exec:
  assumes "well_linked c" and "permitted rem x c" and "exec rem x c = Inr c'"
  shows "well_linked c'"
proof (cases x)
  case (OpNew d)
  with assms show ?thesis by (auto simp: well_linked_alloc)
next
  case (OpInsertID i item)
  with assms show ?thesis by (auto intro: well_linked_InsertID)
next
  case (OpDeleteID i)
  with assms show ?thesis by (auto intro: well_linked_DeleteID)
next
  case (OpMoveID a b)
  with assms(3) obtain e where "MoveID a b c = Inr (c', e)"
    by (cases "MoveID a b c") auto
  with assms(1,2) OpMoveID show ?thesis by (auto intro: well_linked_MoveID)
next
  case (OpGetChildrenID i au)
  with assms well_linked_GetChildrenID [of c rem i au] show ?thesis by auto
qed (use assms in auto)

lemma well_linked_run:
  "well_linked c \<Longrightarrow> permitted_run rem xs c \<Longrightarrow> run rem xs c = Inr c' \<Longrightarrow> well_linked c'"
proof (induction xs arbitrary: c)
  case Nil
  then show ?case by simp
next
  case (Cons x xs)
  from Cons.prems(3) obtain c1 where e: "exec rem x c = Inr c1" and r: "run rem xs c1 = Inr c'"
    by (auto split: sum.splits)
  from Cons.prems(2) e have p: "permitted rem x c" and pr: "permitted_run rem xs c1"
    by simp_all
  from Cons.IH [OF well_linked_exec [OF Cons.prems(1) p e] pr r] show ?case .
qed

lemma well_linked_ex_cache: "well_linked ex_cache"
  unfolding well_linked_def
  by (auto simp: dir_count_def resolves_to_dir_def acc_defs ex_defs split: if_splits)

text \<open>
  C2, as the claim states it, fails: InsertID on an id that is already among the
  parent's children stores the new object and returns before it touches the count. After
  the file object for \<open>n\<close> and then the directory object for \<open>n\<close> are inserted,
  two children of the root resolve to directories and the root's count is one.
\<close>

theorem subdir_count_after_overwrite:
  "GetID ex_twins ''r'' = Some 0 \<and> IsDir (heap ex_twins 0)
   \<and> subdir (heap ex_twins 0) = int (dir_count ex_twins 0)
   \<and> run ex_remote [OpInsertID ''n'' 5, OpInsertID ''n'' 4] ex_twins
        = Inr (projr (run ex_remote [OpInsertID ''n'' 5, OpInsertID ''n'' 4] ex_twins))
   \<and> GetID (projr (run ex_remote [OpInsertID ''n'' 5, OpInsertID ''n'' 4] ex_twins)) ''r'' = Some 0
   \<and> IsDir (heap (projr (run ex_remote [OpInsertID ''n'' 5, OpInsertID ''n'' 4] ex_twins)) 0)
   \<and> subdir (heap (projr (run ex_remote [OpInsertID ''n'' 5, OpInsertID ''n'' 4] ex_twins)) 0) = 1
   \<and> dir_count (projr (run ex_remote [OpInsertID ''n'' 5, OpInsertID ''n'' 4] ex_twins)) 0 = 2"
  by (simp add: ex_twins_def InsertID_def Let_def dir_count_def resolves_to_dir_def acc_defs
      ex_defs)

text \<open>
  C2, amended. After any sequence of permitted InsertID, DeleteID, MoveID and
  GetChildrenID calls (and creations of new objects) that runs without a fault from a
  well-linked cache, the cache is well linked; so for every directory \<open>p\<close> in the
  registry, \<open>p.subdir\<close> is the number of ids in \<open>p.children\<close> that resolve to
  directory items in the registry.
\<close>

theorem subdir_count_accurate:
  assumes "well_linked c" and "permitted_run rem ops c" and "run rem ops c = Inr c'"
  shows "well_linked c'
       \<and> (\<forall>i p. GetID c' i = Some p \<and> IsDir (heap c' p)
              \<longrightarrow> subdir (heap c' p) = int (dir_count c' p))"
proof -
  from assms have "well_linked c'" by (rule well_linked_run)
  then show ?thesis
    by (auto simp: GetID_def dest: well_linked_subdir)
qed

theorem subdir_count_accurate_witness:
  "well_linked ex_cache
   \<and> permitted_run ex_remote [OpInsertID ''n'' 4, OpGetChildrenID ''d'' ex_auth,
        OpMoveID ''n'' ''srv-7'', OpDeleteID ''c''] ex_cache
   \<and> run ex_remote [OpInsertID ''n'' 4, OpGetChildrenID ''d'' ex_auth,
        OpMoveID ''n'' ''srv-7'', OpDeleteID ''c''] ex_cache
      = Inr (projr (run ex_remote [OpInsertID ''n'' 4, OpGetChildrenID ''d'' ex_auth,
        OpMoveID ''n'' ''srv-7'', OpDeleteID ''c''] ex_cache))
   \<and> GetID (projr (run ex_remote [OpInsertID ''n'' 4, OpGetChildrenID ''d'' ex_auth,
        OpMoveID ''n'' ''srv-7'', OpDeleteID ''c''] ex_cache)) ''r'' = Some 0
   \<and> IsDir (heap (projr (run ex_remote [OpInsertID ''n'' 4, OpGetChildrenID ''d'' ex_auth,
        OpMoveID ''n'' ''srv-7'', OpDeleteID ''c''] ex_cache)) 0)
   \<and> subdir (heap (projr (run ex_remote [OpInsertID ''n'' 4, OpGetChildrenID ''d'' ex_auth,
        OpMoveID ''n'' ''srv-7'', OpDeleteID ''c''] ex_cache)) 0)
      = int (dir_count (projr (run ex_remote [OpInsertID ''n'' 4, OpGetChildrenID ''d'' ex_auth,
        OpMoveID ''n'' ''srv-7'', OpDeleteID ''c''] ex_cache)) 0)
   \<and> child_ids (heap (projr (run ex_remote [OpInsertID ''n'' 4, OpGetChildrenID ''d'' ex_auth,
        OpMoveID ''n'' ''srv-7'', OpDeleteID ''c''] ex_cache)) 0) = [''d'', ''srv-7'']
   \<and> subdir (heap (projr (run ex_remote [OpInsertID ''n'' 4, OpGetChildrenID ''d'' ex_auth,
        OpMoveID ''n'' ''srv-7'', OpDeleteID ''c''] ex_cache)) 0) = 2"
proof -
  let ?ops = "[OpInsertID ''n'' 4, OpGetChildrenID ''d'' ex_auth,
        OpMoveID ''n'' ''srv-7'', OpDeleteID ''c'']"
  let ?c' = "projr (run ex_remote ?ops ex_cache)"
  have p: "permitted_run ex_remote ?ops ex_cache"
    by (simp add: InsertID_def GetChildrenID_def MoveID_def DeleteID_def rename_child_def
        unlink_child_def alloc_def decoded_def ex_remote_def ex_auth_def upd_item_def Store_def
        Unregister_def Let_def acc_defs ex_defs)
  have r: "run ex_remote ?ops ex_cache = Inr ?c' \<and> GetID ?c' ''r'' = Some 0
      \<and> IsDir (heap ?c' 0) \<and> child_ids (heap ?c' 0) = [''d'', ''srv-7'']
      \<and> subdir (heap ?c' 0) = 2"
    by (simp add: InsertID_def GetChildrenID_def MoveID_def DeleteID_def rename_child_def
        unlink_child_def alloc_def decoded_def ex_remote_def ex_auth_def upd_item_def Store_def
        Unregister_def Let_def acc_defs ex_defs)
  from subdir_count_accurate [OF well_linked_ex_cache p, of ?c'] r
  have "subdir (heap ?c' 0) = int (dir_count ?c' 0)"
    by blast
  with well_linked_ex_cache p r show ?thesis
    by simp
qed

end
